theory Spec2Isabelle
  imports Main "HOL-Library.AList"
begin

section \<open>Data model\<close>

text \<open>
  The messages of the transcript are the objects of type \<open>ClaudeStreamMessage\<close>. The
  declaration of that type is not among the sources, so the model holds the fields that
  \<open>subagentGrouping.ts\<close> and \<open>StreamMessageV2.tsx\<close> read: an optional field of the
  source is an \<open>option\<close>, \<open>None\<close> standing for \<open>undefined\<close>. Strings are byte
  strings. The items of a content array are objects (never \<open>null\<close>) whose fields, when
  present, are strings.
\<close>

record ContentItem =
  type_i :: string
  text_i :: "string option"
  id_i :: "string option"
  name_i :: "string option"
  tool_use_id :: "string option"
  input_subagent_type :: "string option"

text \<open>\<open>message.message?.content\<close>: missing, a plain string, or an array of items.\<close>

datatype Content = NoContent | TextContent string | ItemContent "ContentItem list"

record Usage =
  input_tokens :: "int option"
  output_tokens :: "int option"

record ClaudeStreamMessage =
  type_m :: string
  id_m :: "string option"
  timestamp :: "string option"
  parent_tool_use_id :: "string option"
  isSidechain :: bool
  content :: Content
  usage :: "Usage option"
  message_usage :: "Usage option"

record SubagentGroup =
  id_g :: string
  taskMessage :: ClaudeStreamMessage
  taskToolUseId :: string
  subagentMessages :: "ClaudeStreamMessage list"
  startIndex :: nat
  endIndex :: nat
  subagentType :: "string option"

datatype MessageGroup =
    Normal ClaudeStreamMessage nat
  | Subagent SubagentGroup
  | Aggregated "ClaudeStreamMessage list" nat

text \<open>
  The third pass of \<open>groupMessages\<close> pushes entries of type \<open>'normal'\<close> and
  \<open>'subagent'\<close> only, and the fourth pass reads \<open>group.message\<close> of every entry that
  is not a subagent entry; the intermediate list is therefore typed with these two variants.
\<close>

datatype IntermediateGroup =
    INormal ClaudeStreamMessage nat
  | ISubagent SubagentGroup

section \<open>JavaScript primitives\<close>

text \<open>Truthiness of an optional string: \<open>undefined\<close> and the empty string are falsy.\<close>

definition truthy :: "string option \<Rightarrow> bool" where
  "truthy v = (case v of None \<Rightarrow> False | Some s \<Rightarrow> s \<noteq> [])"

text \<open>\<open>toLowerCase\<close> on the letters A to Z; its result is only ever compared with
  \<open>'task'\<close>, which no other byte character is mapped into.\<close>

definition toLowerChar :: "char \<Rightarrow> char" where
  "toLowerChar c =
     (let n = (of_char c :: nat)
      in if 65 \<le> n \<and> n \<le> 90 then char_of (n + 32) else c)"

definition toLowerCase :: "string \<Rightarrow> string" where
  "toLowerCase s = map toLowerChar s"

text \<open>White space removed by \<open>String.prototype.trim\<close>, among the byte characters:
  tab, line feed, vertical tab, form feed, carriage return, space, no-break space.\<close>

definition isWhiteSpace :: "char \<Rightarrow> bool" where
  "isWhiteSpace c = ((of_char c :: nat) \<in> {9, 10, 11, 12, 13, 32, 160})"

definition trim :: "string \<Rightarrow> string" where
  "trim s = rev (dropWhile isWhiteSpace (rev (dropWhile isWhiteSpace s)))"

section \<open>Event classifier\<close>

definition isTaskItem :: "ContentItem \<Rightarrow> bool" where
  "isTaskItem item =
     (type_i item = ''tool_use'' \<and> map_option toLowerCase (name_i item) = Some ''task'')"

definition hasTaskToolCall :: "ClaudeStreamMessage \<Rightarrow> bool" where
  "hasTaskToolCall message =
     (if type_m message \<noteq> ''assistant'' then False
      else case content message of
             ItemContent items \<Rightarrow> list_ex isTaskItem items
           | _ \<Rightarrow> False)"

text \<open>\<open>.filter(task).map(item => item.id).filter(Boolean)\<close>\<close>

definition truthyIds :: "string option list \<Rightarrow> string list" where
  "truthyIds ids = map the (filter truthy ids)"

definition extractTaskToolUseIds :: "ClaudeStreamMessage \<Rightarrow> string list" where
  "extractTaskToolUseIds message =
     (if \<not> hasTaskToolCall message then []
      else case content message of
             ItemContent items \<Rightarrow> truthyIds (map id_i (filter isTaskItem items))
           | _ \<Rightarrow> [])"

text \<open>The details map of one message: the value stored for an id is the
  \<open>input?.subagent_type\<close> of the last task item carrying that id.\<close>

definition setDetail ::
  "ContentItem \<Rightarrow> (string \<rightharpoonup> string option) \<Rightarrow> (string \<rightharpoonup> string option)" where
  "setDetail item details =
     (if truthy (id_i item) then details(the (id_i item) \<mapsto> input_subagent_type item)
      else details)"

definition extractTaskToolDetails :: "ClaudeStreamMessage \<Rightarrow> (string \<rightharpoonup> string option)" where
  "extractTaskToolDetails message =
     (if \<not> hasTaskToolCall message then Map.empty
      else case content message of
             ItemContent items \<Rightarrow> fold setDetail (filter isTaskItem items) Map.empty
           | _ \<Rightarrow> Map.empty)"

definition isSubagentMessage :: "ClaudeStreamMessage \<Rightarrow> bool" where
  "isSubagentMessage message = (truthy (parent_tool_use_id message) \<or> isSidechain message)"

definition getParentToolUseId :: "ClaudeStreamMessage \<Rightarrow> string option" where
  "getParentToolUseId message =
     (if truthy (parent_tool_use_id message) then parent_tool_use_id message else None)"

text \<open>The callback of \<open>content.every\<close> in \<open>isTechnicalMessage\<close>.\<close>

definition technicalItem :: "ContentItem \<Rightarrow> bool" where
  "technicalItem item =
     (if type_i item = ''tool_use'' then True
      else if type_i item = ''tool_result'' then True
      else if type_i item = ''thinking'' then True
      else if type_i item = ''text''
        then (\<not> truthy (text_i item) \<or> length (trim (the (text_i item))) = 0)
      else False)"

definition isTechnicalMessage :: "ClaudeStreamMessage \<Rightarrow> bool" where
  "isTechnicalMessage message =
     (if type_m message = ''thinking'' then True
      else if type_m message \<noteq> ''assistant'' then False
      else case content message of
             ItemContent items \<Rightarrow> list_all technicalItem items
           | _ \<Rightarrow> False)"

section \<open>Relationship resolver: the first pass of groupMessages\<close>

text \<open>
  \<open>taskToolUseMap\<close> is iterated later, so it keeps the insertion order of a JavaScript
  \<open>Map\<close>: \<open>AList.update\<close> overwrites the value of a present key in place and appends
  a new key at the end. The other two maps are only looked up.
\<close>

record ResolverState =
  taskToolUseMap :: "(string \<times> (ClaudeStreamMessage \<times> nat)) list"
  indexToTaskIds :: "nat \<rightharpoonup> string list"
  taskSubagentTypes :: "string \<rightharpoonup> string"

definition registerTask ::
  "ClaudeStreamMessage \<Rightarrow> nat \<Rightarrow> (string \<rightharpoonup> string option) \<Rightarrow> string
    \<Rightarrow> ResolverState \<Rightarrow> ResolverState" where
  "registerTask message index details taskId st =
     (let st1 = st\<lparr>taskToolUseMap := AList.update taskId (message, index) (taskToolUseMap st)\<rparr>
      in case details taskId of
           Some detail \<Rightarrow>
             (if truthy detail
              then st1\<lparr>taskSubagentTypes := (taskSubagentTypes st1)(taskId \<mapsto> the detail)\<rparr>
              else st1)
         | None \<Rightarrow> st1)"

definition resolveStep :: "nat \<times> ClaudeStreamMessage \<Rightarrow> ResolverState \<Rightarrow> ResolverState" where
  "resolveStep im st =
     (let index = fst im; message = snd im; taskIds = extractTaskToolUseIds message
      in if length taskIds > 0
         then fold (registerTask message index (extractTaskToolDetails message)) taskIds
                (st\<lparr>indexToTaskIds := (indexToTaskIds st)(index \<mapsto> taskIds)\<rparr>)
         else st)"

definition resolveTasks :: "ClaudeStreamMessage list \<Rightarrow> ResolverState" where
  "resolveTasks messages =
     fold resolveStep (enumerate 0 messages)
       \<lparr>taskToolUseMap = [], indexToTaskIds = Map.empty, taskSubagentTypes = Map.empty\<rparr>"

section \<open>Group builder: the second and third pass\<close>

text \<open>The loop \<open>for (let i = taskInfo.index + 1; i < messages.length; i++)\<close>, with the
  accumulators \<open>subagentMessages\<close> and \<open>maxIndex\<close>.\<close>

function collectSubagent ::
  "ClaudeStreamMessage list \<Rightarrow> string \<Rightarrow> nat \<Rightarrow> ClaudeStreamMessage list \<times> nat
    \<Rightarrow> ClaudeStreamMessage list \<times> nat" where
  "collectSubagent messages taskId i acc =
     (if i < length messages
      then (let msg = messages ! i; parentId = getParentToolUseId msg
            in if parentId = Some taskId
               then collectSubagent messages taskId (Suc i) (fst acc @ [msg], max (snd acc) i)
               else collectSubagent messages taskId (Suc i) acc)
      else acc)"
  by pat_completeness auto
termination
  by (relation "measure (\<lambda>(messages, taskId, i, acc). length messages - i)") auto

declare collectSubagent.simps [simp del]

definition buildGroup ::
  "ClaudeStreamMessage list \<Rightarrow> (string \<rightharpoonup> string) \<Rightarrow> string \<times> (ClaudeStreamMessage \<times> nat)
    \<Rightarrow> (string \<rightharpoonup> SubagentGroup) \<Rightarrow> (string \<rightharpoonup> SubagentGroup)" where
  "buildGroup messages types entry groups =
     (let taskId = fst entry; taskInfo = snd entry;
          res = collectSubagent messages taskId (snd taskInfo + 1) ([], snd taskInfo)
      in if length (fst res) > 0
         then groups(taskId \<mapsto>
                \<lparr>id_g = taskId, taskMessage = fst taskInfo, taskToolUseId = taskId,
                 subagentMessages = fst res, startIndex = snd taskInfo, endIndex = snd res,
                 subagentType = types taskId\<rparr>)
         else groups)"

definition buildSubagentGroups ::
  "ClaudeStreamMessage list \<Rightarrow> ResolverState \<Rightarrow> (string \<rightharpoonup> SubagentGroup)" where
  "buildSubagentGroups messages st =
     fold (buildGroup messages (taskSubagentTypes st)) (taskToolUseMap st) Map.empty"

text \<open>\<open>processedIndices\<close>: every index whose message has a parent id naming a group.\<close>

definition markStep ::
  "(string \<rightharpoonup> SubagentGroup) \<Rightarrow> nat \<times> ClaudeStreamMessage \<Rightarrow> nat set \<Rightarrow> nat set" where
  "markStep groups im processed =
     (case getParentToolUseId (snd im) of
        Some parentId \<Rightarrow> if groups parentId \<noteq> None then insert (fst im) processed else processed
      | None \<Rightarrow> processed)"

definition markProcessed ::
  "ClaudeStreamMessage list \<Rightarrow> (string \<rightharpoonup> SubagentGroup) \<Rightarrow> nat set" where
  "markProcessed messages groups = fold (markStep groups) (enumerate 0 messages) {}"

text \<open>The third pass; its state is \<open>addedTaskGroups\<close> and \<open>intermediateGroups\<close>.\<close>

definition emitTask ::
  "(string \<rightharpoonup> SubagentGroup) \<Rightarrow> string \<Rightarrow> string set \<times> IntermediateGroup list
    \<Rightarrow> string set \<times> IntermediateGroup list" where
  "emitTask groups taskId st =
     (if groups taskId \<noteq> None \<and> taskId \<notin> fst st
      then (insert taskId (fst st), snd st @ [ISubagent (the (groups taskId))])
      else st)"

definition buildStep ::
  "nat set \<Rightarrow> (nat \<rightharpoonup> string list) \<Rightarrow> (string \<rightharpoonup> SubagentGroup)
    \<Rightarrow> nat \<times> ClaudeStreamMessage \<Rightarrow> string set \<times> IntermediateGroup list
    \<Rightarrow> string set \<times> IntermediateGroup list" where
  "buildStep processed idx2ids groups im st =
     (let index = fst im; message = snd im
      in if index \<in> processed then st
         else case idx2ids index of
                Some taskIds \<Rightarrow>
                  (if length taskIds > 0
                   then (let st1 = fold (emitTask groups) taskIds st;
                             hasAnySubagentGroup = list_ex (\<lambda>i. groups i \<noteq> None) taskIds
                         in if \<not> hasAnySubagentGroup
                            then (fst st1, snd st1 @ [INormal message index])
                            else st1)
                   else (fst st, snd st @ [INormal message index]))
              | None \<Rightarrow> (fst st, snd st @ [INormal message index]))"

definition buildIntermediate ::
  "nat set \<Rightarrow> (nat \<rightharpoonup> string list) \<Rightarrow> (string \<rightharpoonup> SubagentGroup)
    \<Rightarrow> (nat \<times> ClaudeStreamMessage) list \<Rightarrow> string set \<times> IntermediateGroup list" where
  "buildIntermediate processed idx2ids groups ims =
     fold (buildStep processed idx2ids groups) ims ({}, [])"

definition subagentGroups :: "ClaudeStreamMessage list \<Rightarrow> (string \<rightharpoonup> SubagentGroup)" where
  "subagentGroups messages = buildSubagentGroups messages (resolveTasks messages)"

definition processedIndices :: "ClaudeStreamMessage list \<Rightarrow> nat set" where
  "processedIndices messages = markProcessed messages (subagentGroups messages)"

definition intermediateGroups :: "ClaudeStreamMessage list \<Rightarrow> IntermediateGroup list" where
  "intermediateGroups messages =
     snd (buildIntermediate (processedIndices messages) (indexToTaskIds (resolveTasks messages))
            (subagentGroups messages) (enumerate 0 messages))"

section \<open>Aggregator: the fourth pass\<close>

text \<open>The state is \<open>finalGroups\<close> and \<open>currentAggregation\<close> (messages, startIndex).\<close>

type_synonym AggregatorState =
  "MessageGroup list \<times> (ClaudeStreamMessage list \<times> nat) option"

definition flushAggregation :: "AggregatorState \<Rightarrow> MessageGroup list" where
  "flushAggregation st =
     (case snd st of
        Some cur \<Rightarrow> fst st @ [Aggregated (fst cur) (snd cur)]
      | None \<Rightarrow> fst st)"

fun aggregateStep :: "IntermediateGroup \<Rightarrow> AggregatorState \<Rightarrow> AggregatorState" where
  "aggregateStep (ISubagent g) st = (flushAggregation st @ [Subagent g], None)"
| "aggregateStep (INormal msg index) st =
     (if isTechnicalMessage msg
      then (case snd st of
              None \<Rightarrow> (fst st, Some ([msg], index))
            | Some cur \<Rightarrow> (fst st, Some (fst cur @ [msg], snd cur)))
      else (flushAggregation st @ [Normal msg index], None))"

definition aggregate :: "IntermediateGroup list \<Rightarrow> MessageGroup list" where
  "aggregate groups = flushAggregation (fold aggregateStep groups ([], None))"

definition groupMessages :: "ClaudeStreamMessage list \<Rightarrow> MessageGroup list" where
  "groupMessages messages = aggregate (intermediateGroups messages)"

section \<open>Equality oracle\<close>

text \<open>
  \<open>prev === next\<close> on two object references is modelled by equality of the two values.
  Identical references hold equal values, and on equal values the comparison of the fields
  returns true as well (lemmas \<open>messageFieldsEqual_refl\<close> and \<open>groupFieldsEqual_refl\<close>
  below), so the result of a comparator does not depend on whether two equal values are one
  object or two.
\<close>

text \<open>The body of the loop over two content arrays of equal length.\<close>

definition itemEqual :: "ContentItem \<Rightarrow> ContentItem \<Rightarrow> bool" where
  "itemEqual prevItem nextItem =
     (if type_i prevItem \<noteq> type_i nextItem then False
      else if type_i prevItem = ''text'' \<and> text_i prevItem \<noteq> text_i nextItem then False
      else if type_i prevItem = ''tool_use''
              \<and> (id_i prevItem \<noteq> id_i nextItem \<or> name_i prevItem \<noteq> name_i nextItem) then False
      else if type_i prevItem = ''tool_result''
              \<and> tool_use_id prevItem \<noteq> tool_use_id nextItem then False
      else True)"

definition contentEqual :: "Content \<Rightarrow> Content \<Rightarrow> bool" where
  "contentEqual prevContent nextContent =
     (case (prevContent, nextContent) of
        (ItemContent ps, ItemContent ns) \<Rightarrow>
          (if length ps \<noteq> length ns then False else list_all2 itemEqual ps ns)
      | _ \<Rightarrow> \<not> (prevContent \<noteq> nextContent))"

text \<open>\<open>prev.usage || prev.message?.usage\<close>, then \<open>?.input_tokens\<close> and
  \<open>?.output_tokens\<close>.\<close>

definition usageOf :: "ClaudeStreamMessage \<Rightarrow> Usage option" where
  "usageOf m = (case usage m of Some u \<Rightarrow> Some u | None \<Rightarrow> message_usage m)"

definition inputTokensOf :: "Usage option \<Rightarrow> int option" where
  "inputTokensOf u = (case u of None \<Rightarrow> None | Some v \<Rightarrow> input_tokens v)"

definition outputTokensOf :: "Usage option \<Rightarrow> int option" where
  "outputTokensOf u = (case u of None \<Rightarrow> None | Some v \<Rightarrow> output_tokens v)"

text \<open>Lines 205 to 256 of \<open>isMessageEqual\<close>: both messages are defined and are not the
  same reference.\<close>

definition messageFieldsEqual :: "ClaudeStreamMessage \<Rightarrow> ClaudeStreamMessage \<Rightarrow> bool" where
  "messageFieldsEqual prev next =
     (if type_m prev \<noteq> type_m next then False
      else if truthy (id_m prev) \<and> truthy (id_m next) \<and> id_m prev \<noteq> id_m next then False
      else if timestamp prev \<noteq> timestamp next then False
      else if \<not> contentEqual (content prev) (content next) then False
      else if inputTokensOf (usageOf prev) \<noteq> inputTokensOf (usageOf next)
              \<or> outputTokensOf (usageOf prev) \<noteq> outputTokensOf (usageOf next) then False
      else True)"

definition isMessageEqual ::
  "ClaudeStreamMessage option \<Rightarrow> ClaudeStreamMessage option \<Rightarrow> bool" where
  "isMessageEqual prev next =
     (if prev = next then True
      else case (prev, next) of
             (Some p, Some n) \<Rightarrow> messageFieldsEqual p n
           | _ \<Rightarrow> False)"

definition groupType :: "MessageGroup \<Rightarrow> string" where
  "groupType g =
     (case g of Normal m i \<Rightarrow> ''normal'' | Subagent s \<Rightarrow> ''subagent''
      | Aggregated ms i \<Rightarrow> ''aggregated'')"

text \<open>The loop over the sub-messages of two groups with as many sub-messages.\<close>

definition subMessageEqual :: "ClaudeStreamMessage \<Rightarrow> ClaudeStreamMessage \<Rightarrow> bool" where
  "subMessageEqual p n = (if p \<noteq> n then isMessageEqual (Some p) (Some n) else True)"

text \<open>Lines 270 to 301 of \<open>isMessageGroupEqual\<close>: both groups are defined and are not
  the same reference. The field \<open>group\<close> of a subagent entry is always present.\<close>

definition groupFieldsEqual :: "MessageGroup \<Rightarrow> MessageGroup \<Rightarrow> bool" where
  "groupFieldsEqual prev next =
     (if groupType prev \<noteq> groupType next then False
      else case (prev, next) of
             (Normal pm pi, Normal nm ni) \<Rightarrow> isMessageEqual (Some pm) (Some nm)
           | (Subagent prevGroup, Subagent nextGroup) \<Rightarrow>
               (if \<not> isMessageEqual (Some (taskMessage prevGroup)) (Some (taskMessage nextGroup))
                then False
                else if length (subagentMessages prevGroup) \<noteq> length (subagentMessages nextGroup)
                then False
                else list_all2 subMessageEqual
                       (subagentMessages prevGroup) (subagentMessages nextGroup))
           | _ \<Rightarrow> True)"

definition isMessageGroupEqual :: "MessageGroup option \<Rightarrow> MessageGroup option \<Rightarrow> bool" where
  "isMessageGroupEqual prev next =
     (if prev = next then True
      else case (prev, next) of
             (Some p, Some n) \<Rightarrow> groupFieldsEqual p n
           | _ \<Rightarrow> False)"

section \<open>Auxiliary definitions for the statements\<close>

text \<open>What an entry of the intermediate list stands for.\<close>

fun technicalEntry :: "IntermediateGroup \<Rightarrow> bool" where
  "technicalEntry (INormal m i) = isTechnicalMessage m"
| "technicalEntry (ISubagent g) = False"

fun entryMessage :: "IntermediateGroup \<Rightarrow> ClaudeStreamMessage" where
  "entryMessage (INormal m i) = m"
| "entryMessage (ISubagent g) = taskMessage g"

fun entryIndex :: "IntermediateGroup \<Rightarrow> nat" where
  "entryIndex (INormal m i) = i"
| "entryIndex (ISubagent g) = startIndex g"

text \<open>The indices that the forward scan of the second pass collects for a task id, and
  those of a group: the scan starts behind the task message.\<close>

definition memberIndicesFrom :: "ClaudeStreamMessage list \<Rightarrow> string \<Rightarrow> nat \<Rightarrow> nat list" where
  "memberIndicesFrom messages taskId i =
     filter (\<lambda>j. getParentToolUseId (messages ! j) = Some taskId) [i ..< length messages]"

definition memberIndices :: "ClaudeStreamMessage list \<Rightarrow> SubagentGroup \<Rightarrow> nat list" where
  "memberIndices messages g = memberIndicesFrom messages (id_g g) (Suc (startIndex g))"

text \<open>The fourth pass as a recursion on the rest of the intermediate list, the open run as
  its first argument; \<open>fold_aggregateStep\<close> shows that the loop computes it.\<close>

fun flushRun :: "(ClaudeStreamMessage list \<times> nat) option \<Rightarrow> MessageGroup list" where
  "flushRun None = []"
| "flushRun (Some cur) = [Aggregated (fst cur) (snd cur)]"

fun aggregateFrom ::
  "(ClaudeStreamMessage list \<times> nat) option \<Rightarrow> IntermediateGroup list \<Rightarrow> MessageGroup list" where
  "aggregateFrom cur [] = flushRun cur"
| "aggregateFrom cur (ISubagent g # gs) = flushRun cur @ Subagent g # aggregateFrom None gs"
| "aggregateFrom cur (INormal m i # gs) =
     (if isTechnicalMessage m
      then aggregateFrom
             (Some (case cur of None \<Rightarrow> ([m], i) | Some c \<Rightarrow> (fst c @ [m], snd c))) gs
      else flushRun cur @ Normal m i # aggregateFrom None gs)"

text \<open>The group that the second pass stores for a task id whose forward scan finds a
  message; \<open>buildGroup_eq\<close> shows that \<open>buildGroup\<close> stores it.\<close>

definition groupFor ::
  "ClaudeStreamMessage list \<Rightarrow> (string \<rightharpoonup> string) \<Rightarrow> string \<Rightarrow> ClaudeStreamMessage \<times> nat
    \<Rightarrow> SubagentGroup" where
  "groupFor msgs types t info =
     \<lparr>id_g = t, taskMessage = fst info, taskToolUseId = t,
      subagentMessages = map (nth msgs) (memberIndicesFrom msgs t (Suc (snd info))),
      startIndex = snd info,
      endIndex = fold max (memberIndicesFrom msgs t (Suc (snd info))) (snd info),
      subagentType = types t\<rparr>"

text \<open>The Subagent and the Normal entries of an intermediate list, in order.\<close>

fun subagentOfI :: "IntermediateGroup \<Rightarrow> SubagentGroup list" where
  "subagentOfI (ISubagent g) = [g]"
| "subagentOfI (INormal m i) = []"

definition subagentsOfI :: "IntermediateGroup list \<Rightarrow> SubagentGroup list" where
  "subagentsOfI gs = concat (map subagentOfI gs)"

fun normalOfI :: "IntermediateGroup \<Rightarrow> (ClaudeStreamMessage \<times> nat) list" where
  "normalOfI (INormal m i) = [(m, i)]"
| "normalOfI (ISubagent g) = []"

definition normalsOfI :: "IntermediateGroup list \<Rightarrow> (ClaudeStreamMessage \<times> nat) list" where
  "normalsOfI gs = concat (map normalOfI gs)"

text \<open>Invariants of the third pass, on its state: every emitted group is the one stored
  under its id, which is in \<open>addedTaskGroups\<close>, and no id is emitted twice; the group
  of every id in \<open>addedTaskGroups\<close> has been emitted.\<close>

definition keyed :: "(string \<rightharpoonup> SubagentGroup) \<Rightarrow> bool" where
  "keyed G = (\<forall>t g. G t = Some g \<longrightarrow> id_g g = t)"

definition emittedOK ::
  "(string \<rightharpoonup> SubagentGroup) \<Rightarrow> string set \<times> IntermediateGroup list \<Rightarrow> bool" where
  "emittedOK G st =
     ((\<forall>g \<in> set (subagentsOfI (snd st)). id_g g \<in> fst st \<and> G (id_g g) = Some g)
      \<and> distinct (map id_g (subagentsOfI (snd st))))"

definition emittedAll ::
  "(string \<rightharpoonup> SubagentGroup) \<Rightarrow> string set \<times> IntermediateGroup list \<Rightarrow> bool" where
  "emittedAll G st = (\<forall>t \<in> fst st. \<exists>g. G t = Some g \<and> ISubagent g \<in> set (snd st))"

text \<open>The index at which the third pass pushes a Normal entry: it is not in
  \<open>processedIndices\<close>, and none of its task ids has a group.\<close>

definition standaloneAt ::
  "nat set \<Rightarrow> (nat \<rightharpoonup> string list) \<Rightarrow> (string \<rightharpoonup> SubagentGroup) \<Rightarrow> nat \<Rightarrow> bool" where
  "standaloneAt P T G i =
     (i \<notin> P \<and> (case T i of None \<Rightarrow> True
                | Some ts \<Rightarrow> ts = [] \<or> \<not> list_ex (\<lambda>t. G t \<noteq> None) ts))"

definition standaloneIndices :: "ClaudeStreamMessage list \<Rightarrow> nat list" where
  "standaloneIndices messages =
     filter (\<lambda>i. i \<notin> processedIndices messages
                \<and> \<not> list_ex (\<lambda>t. subagentGroups messages t \<noteq> None)
                       (extractTaskToolUseIds (messages ! i)))
       [0 ..< length messages]"

text \<open>Parts of the final output: its groups, the messages it shows outside groups
  (payloads of Normal entries and members of Aggregated runs), and the index an entry
  carries.\<close>

fun subagentOf :: "MessageGroup \<Rightarrow> SubagentGroup list" where
  "subagentOf (Subagent g) = [g]"
| "subagentOf (Normal m i) = []"
| "subagentOf (Aggregated ms i) = []"

definition subagentGroupsOf :: "MessageGroup list \<Rightarrow> SubagentGroup list" where
  "subagentGroupsOf out = concat (map subagentOf out)"

fun standaloneOf :: "MessageGroup \<Rightarrow> ClaudeStreamMessage list" where
  "standaloneOf (Normal m i) = [m]"
| "standaloneOf (Aggregated ms i) = ms"
| "standaloneOf (Subagent g) = []"

definition standaloneMessages :: "MessageGroup list \<Rightarrow> ClaudeStreamMessage list" where
  "standaloneMessages out = concat (map standaloneOf out)"

fun leadIndex :: "MessageGroup \<Rightarrow> nat" where
  "leadIndex (Normal m i) = i"
| "leadIndex (Aggregated ms i) = i"
| "leadIndex (Subagent g) = startIndex g"

text \<open>Every task id is carried by one message only.\<close>

definition uniqueTaskOwners :: "ClaudeStreamMessage list \<Rightarrow> bool" where
  "uniqueTaskOwners messages =
     (\<forall>i \<in> set [0 ..< length messages]. \<forall>j \<in> set [0 ..< length messages].
        \<forall>t \<in> set (extractTaskToolUseIds (messages ! i)).
          t \<in> set (extractTaskToolUseIds (messages ! j)) \<longrightarrow> i = j)"

text \<open>The messages and the start index of the open run of the fourth pass.\<close>

fun openRun :: "(ClaudeStreamMessage list \<times> nat) option \<Rightarrow> ClaudeStreamMessage list" where
  "openRun None = []"
| "openRun (Some c) = fst c"

fun openIndex :: "(ClaudeStreamMessage list \<times> nat) option \<Rightarrow> nat set" where
  "openIndex None = {}"
| "openIndex (Some c) = {snd c}"

section \<open>Example transcripts\<close>

definition mkMessage ::
  "string \<Rightarrow> string option \<Rightarrow> Content \<Rightarrow> ClaudeStreamMessage" where
  "mkMessage t parent c =
     \<lparr>type_m = t, id_m = None, timestamp = None, parent_tool_use_id = parent,
      isSidechain = False, content = c, usage = None, message_usage = None\<rparr>"

definition toolUseItem :: "string \<Rightarrow> string \<Rightarrow> ContentItem" where
  "toolUseItem n i =
     \<lparr>type_i = ''tool_use'', text_i = None, id_i = Some i, name_i = Some n,
      tool_use_id = None, input_subagent_type = None\<rparr>"

definition textItem :: "string \<Rightarrow> ContentItem" where
  "textItem t =
     \<lparr>type_i = ''text'', text_i = Some t, id_i = None, name_i = None,
      tool_use_id = None, input_subagent_type = None\<rparr>"

definition userHello :: ClaudeStreamMessage where
  "userHello = mkMessage ''user'' None (TextContent ''hello'')"

definition readCall :: ClaudeStreamMessage where
  "readCall = mkMessage ''assistant'' None (ItemContent [toolUseItem ''Read'' ''r1''])"

definition thinkingBare :: ClaudeStreamMessage where
  "thinkingBare = mkMessage ''thinking'' None NoContent"

definition assistantAnswer :: ClaudeStreamMessage where
  "assistantAnswer = mkMessage ''assistant'' None (ItemContent [textItem ''done''])"

definition stampedHello :: ClaudeStreamMessage where
  "stampedHello = userHello\<lparr>timestamp := Some ''2025-01-01T00:00:00Z''\<rparr>"

definition blankTextCall :: ClaudeStreamMessage where
  "blankTextCall = mkMessage ''assistant'' None (ItemContent [toolUseItem ''Read'' ''r1'', textItem ''  ''])"

definition taskCall :: "string \<Rightarrow> ClaudeStreamMessage" where
  "taskCall t = mkMessage ''assistant'' None (ItemContent [toolUseItem ''Task'' t])"

definition childOf :: "string \<Rightarrow> string \<Rightarrow> ClaudeStreamMessage" where
  "childOf t txt = mkMessage ''user'' (Some t) (TextContent txt)"

text \<open>A message that names the task \<open>t1\<close> as its parent stands before the task
  message.\<close>

definition earlyChild :: "ClaudeStreamMessage list" where
  "earlyChild = [childOf ''t1'' ''early'', taskCall ''t1'', childOf ''t1'' ''late'']"

definition earlyChildGroup :: SubagentGroup where
  "earlyChildGroup =
     \<lparr>id_g = ''t1'', taskMessage = taskCall ''t1'', taskToolUseId = ''t1'',
      subagentMessages = [childOf ''t1'' ''late''], startIndex = 1, endIndex = 2,
      subagentType = None\<rparr>"

text \<open>Two tasks whose subagent messages interleave.\<close>

definition interleavedTasks :: "ClaudeStreamMessage list" where
  "interleavedTasks =
     [taskCall ''t1'', taskCall ''t2'', childOf ''t1'' ''a'', childOf ''t2'' ''b'',
      childOf ''t1'' ''c'']"

definition interleavedGroup1 :: SubagentGroup where
  "interleavedGroup1 =
     \<lparr>id_g = ''t1'', taskMessage = taskCall ''t1'', taskToolUseId = ''t1'',
      subagentMessages = [childOf ''t1'' ''a'', childOf ''t1'' ''c''], startIndex = 0,
      endIndex = 4, subagentType = None\<rparr>"

definition interleavedGroup2 :: SubagentGroup where
  "interleavedGroup2 =
     \<lparr>id_g = ''t2'', taskMessage = taskCall ''t2'', taskToolUseId = ''t2'',
      subagentMessages = [childOf ''t2'' ''b''], startIndex = 1,
      endIndex = 3, subagentType = None\<rparr>"



section \<open>Two properties as executable checks\<close>

text \<open>
  An index appears exactly once in the output, as the specification counts it: as the
  payload of exactly one Normal entry, or as a member of exactly one group, or as the task
  message of a Subagent entry.
\<close>

definition normalCount :: "MessageGroup list \<Rightarrow> nat \<Rightarrow> nat" where
  "normalCount out i =
     length (filter (\<lambda>e. case e of Normal m j \<Rightarrow> j = i | _ \<Rightarrow> False) out)"

definition memberCount :: "ClaudeStreamMessage list \<Rightarrow> MessageGroup list \<Rightarrow> nat \<Rightarrow> nat" where
  "memberCount messages out i =
     length (filter (\<lambda>g. i \<in> set (memberIndices messages g)) (subagentGroupsOf out))"

definition ownerCount :: "MessageGroup list \<Rightarrow> nat \<Rightarrow> nat" where
  "ownerCount out i = length (filter (\<lambda>g. startIndex g = i) (subagentGroupsOf out))"

definition appearsOnce :: "ClaudeStreamMessage list \<Rightarrow> nat \<Rightarrow> bool" where
  "appearsOnce messages i =
     (let out = groupMessages messages;
          n = normalCount out i; m = memberCount messages out i; w = ownerCount out i
      in (n = 1 \<and> m = 0 \<and> w = 0) \<or> (n = 0 \<and> m = 1 \<and> w = 0) \<or> (n = 0 \<and> m = 0 \<and> 1 \<le> w))"

text \<open>
  The flattened output (a group is its task message followed by its subagent messages) lists
  the messages in the order of their original indices. The original index of a message is
  its first position in the input; the examples hold no message twice.
\<close>

fun flattenGroup :: "MessageGroup \<Rightarrow> ClaudeStreamMessage list" where
  "flattenGroup (Normal m i) = [m]"
| "flattenGroup (Aggregated ms i) = ms"
| "flattenGroup (Subagent g) = taskMessage g # subagentMessages g"

definition flattenGroups :: "MessageGroup list \<Rightarrow> ClaudeStreamMessage list" where
  "flattenGroups out = concat (map flattenGroup out)"



section \<open>The event classifier\<close>

text \<open>
  C3, as stated, fails: a message of type \<open>thinking\<close> without content is technical,
  since \<open>isTechnicalMessage\<close> returns true for that type before it looks at the
  content.
\<close>

theorem thinking_without_content_is_technical:
  "content thinkingBare = NoContent \<and> isTechnicalMessage thinkingBare"
  by (simp add: thinkingBare_def mkMessage_def isTechnicalMessage_def)

text \<open>
  C3, amended. For every message whose content is missing or is not an item sequence,
  \<open>hasTaskToolCall\<close> returns false, and \<open>isTechnicalMessage\<close> returns false
  unless the type of the message is \<open>thinking\<close>, when it returns true. Both functions
  are total: with such a content they return before any item is read.
\<close>

theorem classifiers_on_missing_content:
  assumes "\<forall>items. content m \<noteq> ItemContent items"
  shows "\<not> hasTaskToolCall m \<and> (isTechnicalMessage m \<longleftrightarrow> type_m m = ''thinking'')"
  using assms by (cases "content m") (simp_all add: hasTaskToolCall_def isTechnicalMessage_def)

theorem classifiers_on_missing_content_witness:
  "content userHello = TextContent ''hello''
   \<and> \<not> hasTaskToolCall userHello \<and> \<not> isTechnicalMessage userHello
   \<and> content thinkingBare = NoContent
   \<and> \<not> hasTaskToolCall thinkingBare \<and> isTechnicalMessage thinkingBare"
proof -
  have c: "content userHello = TextContent ''hello''" "content thinkingBare = NoContent"
    by (simp_all add: userHello_def thinkingBare_def mkMessage_def)
  have a: "\<forall>items. content userHello \<noteq> ItemContent items"
    and b: "\<forall>items. content thinkingBare \<noteq> ItemContent items"
    using c by simp_all
  have t: "type_m userHello \<noteq> ''thinking''" "type_m thinkingBare = ''thinking''"
    by (simp_all add: userHello_def thinkingBare_def mkMessage_def)
  show ?thesis
    using c t classifiers_on_missing_content [OF a] classifiers_on_missing_content [OF b]
    by simp
qed

text \<open>The trimmed text is empty exactly when the text holds white space only.\<close>

lemma trim_empty_iff: "trim s = [] \<longleftrightarrow> (\<forall>c \<in> set s. isWhiteSpace c)"
proof -
  have a: "(\<forall>x \<in> set (dropWhile isWhiteSpace s). isWhiteSpace x)
      \<longleftrightarrow> dropWhile isWhiteSpace s = []"
    using hd_dropWhile [of isWhiteSpace s] by (cases "dropWhile isWhiteSpace s") (auto dest: set_dropWhileD)
  have b: "trim s = [] \<longleftrightarrow> (\<forall>x \<in> set (dropWhile isWhiteSpace s). isWhiteSpace x)"
    by (simp add: trim_def dropWhile_eq_Nil_conv)
  have c: "dropWhile isWhiteSpace s = [] \<longleftrightarrow> (\<forall>x \<in> set s. isWhiteSpace x)"
    by (rule dropWhile_eq_Nil_conv)
  from a b c show ?thesis by blast
qed

lemma technicalItem_iff:
  "technicalItem item \<longleftrightarrow>
     type_i item \<in> {''tool_use'', ''tool_result'', ''thinking''}
     \<or> (type_i item = ''text'' \<and> trim (case text_i item of None \<Rightarrow> [] | Some t \<Rightarrow> t) = [])"
  by (cases "text_i item") (auto simp: technicalItem_def truthy_def trim_def)

text \<open>
  C8. \<open>isTechnicalMessage\<close> returns true for every message of type \<open>thinking\<close>,
  whatever its content; otherwise it returns true if and only if the type is
  \<open>assistant\<close>, the content is an item sequence, and every item is a \<open>tool_use\<close>,
  \<open>tool_result\<close> or \<open>thinking\<close> item or a \<open>text\<close> item whose trimmed text
  is empty (a \<open>text\<close> item without text counts as empty).
\<close>

theorem isTechnicalMessage_iff:
  "isTechnicalMessage m \<longleftrightarrow>
     type_m m = ''thinking''
     \<or> (type_m m = ''assistant''
        \<and> (\<exists>items. content m = ItemContent items
             \<and> (\<forall>item \<in> set items.
                   type_i item \<in> {''tool_use'', ''tool_result'', ''thinking''}
                   \<or> (type_i item = ''text''
                       \<and> trim (case text_i item of None \<Rightarrow> [] | Some t \<Rightarrow> t) = []))))"
  by (cases "content m") (auto simp: isTechnicalMessage_def list_all_iff technicalItem_iff)

theorem isTechnicalMessage_iff_witness:
  "isTechnicalMessage blankTextCall \<and> \<not> isTechnicalMessage assistantAnswer
   \<and> isTechnicalMessage thinkingBare"
proof -
  have ws: "trim ''  '' = []" "trim ''done'' \<noteq> []"
    by (simp_all add: trim_def isWhiteSpace_def)
  have a: "isTechnicalMessage blankTextCall"
    using isTechnicalMessage_iff [of blankTextCall] ws
    by (simp add: blankTextCall_def mkMessage_def toolUseItem_def textItem_def)
  have b: "\<not> isTechnicalMessage assistantAnswer"
    using isTechnicalMessage_iff [of assistantAnswer] ws
    by (simp add: assistantAnswer_def mkMessage_def textItem_def)
  have c: "isTechnicalMessage thinkingBare"
    using isTechnicalMessage_iff [of thinkingBare]
    by (simp add: thinkingBare_def mkMessage_def)
  from a b c show ?thesis by simp
qed

section \<open>The equality oracle\<close>

text \<open>The comparison of the fields is reflexive, so modelling \<open>===\<close> by equality of
  values changes no result.\<close>

lemma itemEqual_refl: "itemEqual x x"
  by (simp add: itemEqual_def)

lemma contentEqual_refl: "contentEqual c c"
  by (cases c) (simp_all add: contentEqual_def list_all2_same itemEqual_refl)

lemma messageFieldsEqual_refl: "messageFieldsEqual m m"
  by (simp add: messageFieldsEqual_def contentEqual_refl)

lemma groupFieldsEqual_refl: "groupFieldsEqual g g"
  by (cases g)
     (simp_all add: groupFieldsEqual_def isMessageEqual_def list_all2_same subMessageEqual_def)

lemma messageFieldsEqual_timestamp: "messageFieldsEqual p n \<Longrightarrow> timestamp p = timestamp n"
  by (simp add: messageFieldsEqual_def split: if_splits)

text \<open>
  C6 does not hold of the code: \<open>isMessageEqual\<close> compares the two timestamps
  with \<open>!==\<close> whether or not both are defined. Two messages that agree in type, id,
  content and usage, one with a timestamp and one without, compare unequal in both
  directions.
\<close>

theorem one_sided_timestamp_not_equal:
  "type_m stampedHello = type_m userHello \<and> id_m stampedHello = id_m userHello
   \<and> content stampedHello = content userHello \<and> usage stampedHello = usage userHello
   \<and> message_usage stampedHello = message_usage userHello
   \<and> timestamp stampedHello \<noteq> None \<and> timestamp userHello = None
   \<and> \<not> isMessageEqual (Some stampedHello) (Some userHello)
   \<and> \<not> isMessageEqual (Some userHello) (Some stampedHello)"
  by (simp add: stampedHello_def userHello_def mkMessage_def isMessageEqual_def
      messageFieldsEqual_def)

text \<open>
  C7. Two render groups of type \<open>aggregated\<close> always compare equal under
  \<open>isMessageGroupEqual\<close>: neither their messages nor their indices are looked at.
\<close>

theorem aggregated_groups_compare_equal:
  "isMessageGroupEqual (Some (Aggregated ms i)) (Some (Aggregated ms' j))"
  by (simp add: isMessageGroupEqual_def groupFieldsEqual_def groupType_def)

section \<open>Entries of the intermediate list\<close>

lemma subagentsOfI_append [simp]: "subagentsOfI (xs @ ys) = subagentsOfI xs @ subagentsOfI ys"
  by (simp add: subagentsOfI_def)

lemma normalsOfI_append [simp]: "normalsOfI (xs @ ys) = normalsOfI xs @ normalsOfI ys"
  by (simp add: normalsOfI_def)

lemma subagentsOfI_simps [simp]:
  "subagentsOfI [] = []" "subagentsOfI (ISubagent g # gs) = g # subagentsOfI gs"
  "subagentsOfI (INormal m i # gs) = subagentsOfI gs"
  by (simp_all add: subagentsOfI_def)

lemma normalsOfI_simps [simp]:
  "normalsOfI [] = []" "normalsOfI (ISubagent g # gs) = normalsOfI gs"
  "normalsOfI (INormal m i # gs) = (m, i) # normalsOfI gs"
  by (simp_all add: normalsOfI_def)


lemma in_subagentsOfI: "g \<in> set (subagentsOfI gs) \<longleftrightarrow> ISubagent g \<in> set gs"
proof (induction gs)
  case Nil
  show ?case by simp
next
  case (Cons e gs)
  then show ?case by (cases e) auto
qed

section \<open>The aggregator\<close>

lemma flushAggregation_flushRun: "flushAggregation (fin, cur) = fin @ flushRun cur"
  by (cases cur) (simp_all add: flushAggregation_def)

lemma fold_aggregateStep:
  "flushAggregation (fold aggregateStep gs (fin, cur)) = fin @ aggregateFrom cur gs"
proof (induction gs arbitrary: fin cur)
  case Nil
  show ?case by (simp add: flushAggregation_flushRun)
next
  case (Cons g gs)
  show ?case
  proof (cases g)
    case (INormal m i)
    then show ?thesis
      using Cons.IH by (cases cur) (simp_all add: flushAggregation_flushRun)
  next
    case (ISubagent s)
    then show ?thesis
      using Cons.IH by (simp add: flushAggregation_flushRun)
  qed
qed

lemma aggregate_aggregateFrom: "aggregate gs = aggregateFrom None gs"
  using fold_aggregateStep [of gs "[]" None] by (simp add: aggregate_def)

lemma aggregateFrom_boundary:
  "pre \<noteq> [] \<Longrightarrow> \<not> technicalEntry (last pre) \<Longrightarrow>
     aggregateFrom cur (pre @ rest) = aggregateFrom cur pre @ aggregateFrom None rest"
proof (induction pre arbitrary: cur)
  case Nil
  then show ?case by simp
next
  case (Cons g pre)
  show ?case
  proof (cases "pre = []")
    case True
    with Cons.prems show ?thesis by (cases g) simp_all
  next
    case False
    with Cons show ?thesis by (cases g) simp_all
  qed
qed

lemma aggregateFrom_open:
  "rest = [] \<or> \<not> technicalEntry (hd rest) \<Longrightarrow>
     aggregateFrom (Some c) rest = Aggregated (fst c) (snd c) # aggregateFrom None rest"
proof (cases rest)
  case Nil
  then show ?thesis by simp
next
  case (Cons g gs)
  assume "rest = [] \<or> \<not> technicalEntry (hd rest)"
  with Cons show ?thesis by (cases g) simp_all
qed

lemma aggregateFrom_run:
  "\<forall>g \<in> set run. technicalEntry g \<Longrightarrow>
     aggregateFrom (Some c) (run @ rest)
       = aggregateFrom (Some (fst c @ map entryMessage run, snd c)) rest"
proof (induction run arbitrary: c)
  case Nil
  show ?case by simp
next
  case (Cons g run)
  then show ?case by (cases g) simp_all
qed

lemma aggregateFrom_run_start:
  assumes "run \<noteq> []" and "\<forall>g \<in> set run. technicalEntry g"
  shows "aggregateFrom None (run @ rest)
       = aggregateFrom (Some (map entryMessage run, entryIndex (hd run))) rest"
proof (cases run)
  case Nil
  with assms show ?thesis by simp
next
  case (Cons g run')
  with assms obtain m i where g: "g = INormal m i" and t: "isTechnicalMessage m"
    by (cases g) auto
  from assms Cons have "\<forall>g \<in> set run'. technicalEntry g" by simp
  from aggregateFrom_run [OF this, of "([m], i)" rest] show ?thesis
    using Cons g t by simp
qed

text \<open>
  C4. Let the intermediate list be \<open>pre @ run @ post\<close>, where \<open>run\<close> is a non-empty run
  of Normal entries that all satisfy \<open>isTechnicalMessage\<close>, and where the run is maximal:
  \<open>pre\<close> is empty or ends with a Subagent entry or a non-technical Normal entry, and
  \<open>post\<close> is empty or starts with one. Then the aggregation pass emits what it emits for
  \<open>pre\<close>, then exactly one Aggregated entry holding the messages of the run in order
  under the index of the run's first member, then what it emits for \<open>post\<close>. A run of
  one message is no exception, and a Subagent entry always closes the run.
\<close>

theorem technical_run_aggregated:
  assumes "run \<noteq> []"
    and "\<forall>g \<in> set run. technicalEntry g"
    and "pre = [] \<or> \<not> technicalEntry (last pre)"
    and "post = [] \<or> \<not> technicalEntry (hd post)"
  shows "aggregate (pre @ run @ post)
       = aggregate pre @ Aggregated (map entryMessage run) (entryIndex (hd run)) # aggregate post"
proof -
  have "aggregateFrom None (pre @ run @ post)
      = aggregateFrom None pre @ aggregateFrom None (run @ post)"
    using assms(3) aggregateFrom_boundary [of pre None "run @ post"] by (cases "pre = []") auto
  also have "aggregateFrom None (run @ post)
      = aggregateFrom (Some (map entryMessage run, entryIndex (hd run))) post"
    using assms(1,2) by (rule aggregateFrom_run_start)
  also have "\<dots> = Aggregated (map entryMessage run) (entryIndex (hd run)) # aggregateFrom None post"
    using aggregateFrom_open [OF assms(4)] by simp
  finally show ?thesis by (simp add: aggregate_aggregateFrom)
qed

theorem technical_run_aggregated_witness:
  "aggregate ([INormal userHello 0] @ [INormal readCall 1, INormal thinkingBare 2]
              @ [INormal assistantAnswer 3])
     = [Normal userHello 0, Aggregated [readCall, thinkingBare] 1, Normal assistantAnswer 3]"
proof -
  have tech: "isTechnicalMessage readCall" "isTechnicalMessage thinkingBare"
    by (simp_all add: isTechnicalMessage_def readCall_def thinkingBare_def mkMessage_def
        toolUseItem_def technicalItem_def)
  have plain: "\<not> isTechnicalMessage userHello" "\<not> isTechnicalMessage assistantAnswer"
    by (simp_all add: isTechnicalMessage_def userHello_def assistantAnswer_def mkMessage_def
        textItem_def technicalItem_def truthy_def trim_def isWhiteSpace_def)
  have pre: "aggregate [INormal userHello 0] = [Normal userHello 0]"
    using plain by (simp add: aggregate_def flushAggregation_def)
  have post: "aggregate [INormal assistantAnswer 3] = [Normal assistantAnswer 3]"
    using plain by (simp add: aggregate_def flushAggregation_def)
  show ?thesis
    using technical_run_aggregated
      [of "[INormal readCall 1, INormal thinkingBare 2]" "[INormal userHello 0]"
          "[INormal assistantAnswer 3]"]
      tech plain pre post
    by simp
qed

text \<open>What the fourth pass keeps of the intermediate list.\<close>

lemma subagentGroupsOf_simps [simp]:
  "subagentGroupsOf [] = []"
  "subagentGroupsOf (x # xs) = subagentOf x @ subagentGroupsOf xs"
  "subagentGroupsOf (xs @ ys) = subagentGroupsOf xs @ subagentGroupsOf ys"
  by (simp_all add: subagentGroupsOf_def)

lemma standaloneMessages_simps [simp]:
  "standaloneMessages [] = []"
  "standaloneMessages (x # xs) = standaloneOf x @ standaloneMessages xs"
  "standaloneMessages (xs @ ys) = standaloneMessages xs @ standaloneMessages ys"
  by (simp_all add: standaloneMessages_def)

lemma flushRun_subagents [simp]: "subagentGroupsOf (flushRun cur) = []"
  by (cases cur) simp_all

lemma flushRun_standalone [simp]: "standaloneMessages (flushRun cur) = openRun cur"
  by (cases cur) simp_all

lemma flushRun_no_normal [simp]: "Normal m i \<notin> set (flushRun cur)"
  by (cases cur) simp_all

lemma aggregateFrom_subagents: "subagentGroupsOf (aggregateFrom cur gs) = subagentsOfI gs"
proof (induction gs arbitrary: cur)
  case Nil
  show ?case by simp
next
  case (Cons g gs)
  then show ?case by (cases g) simp_all
qed

lemma aggregateFrom_standalone:
  "standaloneMessages (aggregateFrom cur gs) = openRun cur @ map fst (normalsOfI gs)"
proof (induction gs arbitrary: cur)
  case Nil
  show ?case by simp
next
  case (Cons g gs)
  show ?case
  proof (cases g)
    case (INormal m i)
    then show ?thesis using Cons.IH by (cases cur) simp_all
  next
    case (ISubagent s)
    then show ?thesis using Cons.IH by simp
  qed
qed




lemma flushRun_lead [simp]: "leadIndex ` set (flushRun cur) = openIndex cur"
  by (cases cur) simp_all



section \<open>The relationship resolver\<close>

lemma indexToTaskIds_registerTask [simp]:
  "indexToTaskIds (registerTask m i d t st) = indexToTaskIds st"
  by (simp add: registerTask_def Let_def split: option.splits)

lemma taskToolUseMap_registerTask [simp]:
  "taskToolUseMap (registerTask m i d t st) = AList.update t (m, i) (taskToolUseMap st)"
  by (simp add: registerTask_def Let_def split: option.splits)

lemma indexToTaskIds_fold_registerTask [simp]:
  "indexToTaskIds (fold (registerTask m i d) ts st) = indexToTaskIds st"
  by (induction ts arbitrary: st) simp_all

lemma taskToolUseMap_fold_registerTask:
  "taskToolUseMap (fold (registerTask m i d) ts st)
     = fold (\<lambda>t. AList.update t (m, i)) ts (taskToolUseMap st)"
  by (induction ts arbitrary: st) simp_all

lemma map_of_fold_update:
  "map_of (fold (\<lambda>t. AList.update t v) ts al) k = (if k \<in> set ts then Some v else map_of al k)"
  by (induction ts arbitrary: al) (simp_all add: update_conv')

lemma distinct_fold_update:
  "distinct (map fst al) \<Longrightarrow> distinct (map fst (fold (\<lambda>t. AList.update t v) ts al))"
  by (induction ts arbitrary: al) (simp_all add: distinct_update)

lemma indexToTaskIds_resolveStep:
  "indexToTaskIds (resolveStep (i, m) st)
     = (if extractTaskToolUseIds m \<noteq> [] then (indexToTaskIds st)(i \<mapsto> extractTaskToolUseIds m)
        else indexToTaskIds st)"
  by (simp add: resolveStep_def Let_def)

lemma taskToolUseMap_resolveStep:
  "taskToolUseMap (resolveStep (i, m) st)
     = fold (\<lambda>t. AList.update t (m, i)) (extractTaskToolUseIds m) (taskToolUseMap st)"
  by (simp add: resolveStep_def Let_def taskToolUseMap_fold_registerTask)

lemma resolveTasks_Nil: "resolveTasks [] = \<lparr>taskToolUseMap = [], indexToTaskIds = Map.empty, taskSubagentTypes = Map.empty\<rparr>"
  by (simp add: resolveTasks_def)

lemma resolveTasks_snoc:
  "resolveTasks (xs @ [x]) = resolveStep (length xs, x) (resolveTasks xs)"
  by (simp add: resolveTasks_def enumerate_append_eq)

text \<open>After the first pass: the task ids of every index, and for every task id a message
  that carries it, with its index.\<close>

lemma indexToTaskIds_resolveTasks:
  "indexToTaskIds (resolveTasks msgs) i
     = (if i < length msgs \<and> extractTaskToolUseIds (msgs ! i) \<noteq> []
        then Some (extractTaskToolUseIds (msgs ! i)) else None)"
proof (induction msgs rule: rev_induct)
  case Nil
  show ?case by (simp add: resolveTasks_Nil)
next
  case (snoc x xs)
  show ?case
    using snoc.IH
    by (auto simp: resolveTasks_snoc indexToTaskIds_resolveStep nth_append)
qed

lemma taskToolUseMap_distinct: "distinct (map fst (taskToolUseMap (resolveTasks msgs)))"
proof (induction msgs rule: rev_induct)
  case Nil
  show ?case by (simp add: resolveTasks_Nil)
next
  case (snoc x xs)
  then show ?case
    by (simp add: resolveTasks_snoc taskToolUseMap_resolveStep distinct_fold_update)
qed

lemma taskToolUseMap_sound:
  "map_of (taskToolUseMap (resolveTasks msgs)) t = Some (m, i) \<Longrightarrow>
     i < length msgs \<and> m = msgs ! i \<and> t \<in> set (extractTaskToolUseIds (msgs ! i))"
proof (induction msgs rule: rev_induct)
  case Nil
  then show ?case by (simp add: resolveTasks_Nil)
next
  case (snoc x xs)
  show ?case
  proof (cases "t \<in> set (extractTaskToolUseIds x)")
    case True
    with snoc.prems show ?thesis
      by (auto simp: resolveTasks_snoc taskToolUseMap_resolveStep map_of_fold_update nth_append)
  next
    case False
    with snoc.prems have "map_of (taskToolUseMap (resolveTasks xs)) t = Some (m, i)"
      by (simp add: resolveTasks_snoc taskToolUseMap_resolveStep map_of_fold_update)
    from snoc.IH [OF this] show ?thesis by (simp add: nth_append)
  qed
qed

lemma taskToolUseMap_complete:
  "i < length msgs \<Longrightarrow> t \<in> set (extractTaskToolUseIds (msgs ! i)) \<Longrightarrow>
     map_of (taskToolUseMap (resolveTasks msgs)) t \<noteq> None"
proof (induction msgs rule: rev_induct)
  case Nil
  then show ?case by simp
next
  case (snoc x xs)
  show ?case
  proof (cases "t \<in> set (extractTaskToolUseIds x)")
    case True
    then show ?thesis
      by (simp add: resolveTasks_snoc taskToolUseMap_resolveStep map_of_fold_update)
  next
    case False
    with snoc.prems have "i < length xs" "t \<in> set (extractTaskToolUseIds (xs ! i))"
      by (auto simp: nth_append less_Suc_eq split: if_splits)
    from snoc.IH [OF this] False show ?thesis
      by (simp add: resolveTasks_snoc taskToolUseMap_resolveStep map_of_fold_update)
  qed
qed

section \<open>The group builder\<close>

subsection \<open>The forward scan and the groups\<close>

lemma memberIndicesFrom_step:
  "i < length msgs \<Longrightarrow>
     memberIndicesFrom msgs t i
       = (if getParentToolUseId (msgs ! i) = Some t then [i] else []) @ memberIndicesFrom msgs t (Suc i)"
  by (simp add: memberIndicesFrom_def upt_conv_Cons)

lemma memberIndicesFrom_end: "\<not> i < length msgs \<Longrightarrow> memberIndicesFrom msgs t i = []"
  by (simp add: memberIndicesFrom_def)

lemma collectSubagent_eq:
  "collectSubagent msgs t i acc
     = (fst acc @ map (nth msgs) (memberIndicesFrom msgs t i),
        fold max (memberIndicesFrom msgs t i) (snd acc))"
proof (induction msgs t i acc rule: collectSubagent.induct)
  case (1 messages taskId i acc)
  show ?case
  proof (cases "i < length messages")
    case False
    then show ?thesis
      by (subst collectSubagent.simps) (simp add: memberIndicesFrom_end)
  next
    case True
    show ?thesis
    proof (cases "getParentToolUseId (messages ! i) = Some taskId")
      case True
      with \<open>i < length messages\<close> "1.IH"(1) show ?thesis
        by (subst collectSubagent.simps)
           (simp add: memberIndicesFrom_step [of i messages taskId] max.commute)
    next
      case False
      with \<open>i < length messages\<close> "1.IH"(2) show ?thesis
        by (subst collectSubagent.simps)
           (simp add: memberIndicesFrom_step [of i messages taskId])
    qed
  qed
qed

lemma memberIndicesFrom_bounds:
  "j \<in> set (memberIndicesFrom msgs t i) \<longleftrightarrow>
     i \<le> j \<and> j < length msgs \<and> getParentToolUseId (msgs ! j) = Some t"
  by (auto simp: memberIndicesFrom_def)

lemma memberIndicesFrom_sorted: "sorted_wrt (<) (memberIndicesFrom msgs t i)"
  by (simp add: memberIndicesFrom_def sorted_wrt_filter)

lemma fold_max_members:
  assumes "js \<noteq> []" and "\<forall>j \<in> set js. s < j"
  shows "fold max js (s::nat) = Max (set js)"
proof -
  have "fold max js s = Max (set (s # js))" by (simp only: Max.set_eq_fold)
  also have "\<dots> = max s (Max (set js))" using assms(1) by simp
  also have "\<dots> = Max (set js)"
  proof -
    from assms(1) obtain j where "j \<in> set js" by (cases js) auto
    with assms(2) have "s < j" by blast
    moreover from \<open>j \<in> set js\<close> have "j \<le> Max (set js)" by simp
    ultimately show ?thesis by simp
  qed
  finally show ?thesis .
qed

lemma buildGroup_eq:
  "buildGroup msgs types (t, info) G
     = (if memberIndicesFrom msgs t (Suc (snd info)) \<noteq> []
        then G(t \<mapsto> groupFor msgs types t info) else G)"
  by (simp add: buildGroup_def Let_def collectSubagent_eq groupFor_def)

lemma fold_buildGroup:
  "distinct (map fst al) \<Longrightarrow>
     fold (buildGroup msgs types) al G t
       = (case map_of al t of
            None \<Rightarrow> G t
          | Some info \<Rightarrow>
              if memberIndicesFrom msgs t (Suc (snd info)) \<noteq> []
              then Some (groupFor msgs types t info) else G t)"
proof (induction al arbitrary: G)
  case Nil
  show ?case by simp
next
  case (Cons e al)
  obtain k v where e: "e = (k, v)" by (cases e)
  from Cons.prems e have d: "distinct (map fst al)" and k: "k \<notin> fst ` set al" by auto
  from k have none: "map_of al k = None" by (simp add: map_of_eq_None_iff)
  show ?case
  proof (cases "t = k")
    case True
    with none show ?thesis
      using Cons.IH [OF d, of "buildGroup msgs types (k, v) G"] e
      by (simp add: buildGroup_eq)
  next
    case False
    then show ?thesis
      using Cons.IH [OF d, of "buildGroup msgs types (k, v) G"] e
      by (simp add: buildGroup_eq split: option.splits)
  qed
qed

lemma subagentGroups_eq:
  "subagentGroups msgs t
     = (case map_of (taskToolUseMap (resolveTasks msgs)) t of
          None \<Rightarrow> None
        | Some info \<Rightarrow>
            if memberIndicesFrom msgs t (Suc (snd info)) \<noteq> []
            then Some (groupFor msgs (taskSubagentTypes (resolveTasks msgs)) t info) else None)"
  by (simp add: subagentGroups_def buildSubagentGroups_def
      fold_buildGroup [OF taskToolUseMap_distinct])

lemma subagentGroups_sound:
  assumes "subagentGroups msgs t = Some g"
  shows "id_g g = t \<and> startIndex g < length msgs \<and> taskMessage g = msgs ! startIndex g
       \<and> t \<in> set (extractTaskToolUseIds (msgs ! startIndex g))
       \<and> subagentMessages g = map (nth msgs) (memberIndices msgs g)
       \<and> memberIndices msgs g \<noteq> []
       \<and> endIndex g = Max (set (memberIndices msgs g))"
proof -
  from assms obtain m i where
    tm: "map_of (taskToolUseMap (resolveTasks msgs)) t = Some (m, i)"
    and ne: "memberIndicesFrom msgs t (Suc i) \<noteq> []"
    and g: "g = groupFor msgs (taskSubagentTypes (resolveTasks msgs)) t (m, i)"
    by (auto simp: subagentGroups_eq split: option.splits if_splits)
  from taskToolUseMap_sound [OF tm] have
    "i < length msgs" "m = msgs ! i" "t \<in> set (extractTaskToolUseIds (msgs ! i))"
    by simp_all
  moreover have "\<forall>j \<in> set (memberIndicesFrom msgs t (Suc i)). i < j"
    by (auto simp: memberIndicesFrom_bounds)
  from fold_max_members [OF ne this]
  have "fold max (memberIndicesFrom msgs t (Suc i)) i = Max (set (memberIndicesFrom msgs t (Suc i)))" .
  ultimately show ?thesis
    using ne g by (simp add: groupFor_def memberIndices_def)
qed


lemma subagentGroups_keyed: "keyed (subagentGroups msgs)"
  using subagentGroups_sound by (auto simp: keyed_def)

lemma markProcessed_eq:
  "markProcessed msgs G
     = {i. i < length msgs \<and> (\<exists>p. getParentToolUseId (msgs ! i) = Some p \<and> G p \<noteq> None)}"
proof (induction msgs rule: rev_induct)
  case Nil
  show ?case by (simp add: markProcessed_def)
next
  case (snoc x xs)
  have step: "markProcessed (xs @ [x]) G = markStep G (length xs, x) (markProcessed xs G)"
    by (simp add: markProcessed_def enumerate_append_eq)
  show ?case
    unfolding step snoc.IH
    by (auto simp: markStep_def nth_append less_Suc_eq split: option.splits)
qed

lemma processedIndices_eq:
  "processedIndices msgs
     = {i. i < length msgs
          \<and> (\<exists>p. getParentToolUseId (msgs ! i) = Some p \<and> subagentGroups msgs p \<noteq> None)}"
  by (simp add: processedIndices_def markProcessed_eq)

subsection \<open>The third pass\<close>

lemma emitTask_cases:
  "emitTask G t st = st
   \<or> (G t \<noteq> None \<and> t \<notin> fst st
      \<and> emitTask G t st = (insert t (fst st), snd st @ [ISubagent (the (G t))]))"
  by (simp add: emitTask_def)

lemma emitTask_normals [simp]: "normalsOfI (snd (emitTask G t st)) = normalsOfI (snd st)"
  by (simp add: emitTask_def)

lemma fold_emitTask_normals [simp]:
  "normalsOfI (snd (fold (emitTask G) ts st)) = normalsOfI (snd st)"
  by (induction ts arbitrary: st) simp_all

lemma emitTask_inv: "keyed G \<Longrightarrow> emittedOK G st \<Longrightarrow> emittedOK G (emitTask G t st)"
  using emitTask_cases [of G t st]
  by (auto simp: emittedOK_def keyed_def)

lemma fold_emitTask_inv:
  "keyed G \<Longrightarrow> emittedOK G st \<Longrightarrow> emittedOK G (fold (emitTask G) ts st)"
  by (induction ts arbitrary: st) (simp_all add: emitTask_inv)

lemma fold_emitTask_out:
  "\<exists>new. snd (fold (emitTask G) ts st) = snd st @ map ISubagent new
         \<and> (\<forall>g \<in> set new. \<exists>t \<in> set ts. G t = Some g)"
proof (induction ts arbitrary: st)
  case Nil
  show ?case by simp
next
  case (Cons t ts)
  from Cons.IH [of "emitTask G t st"] obtain new where
    new: "snd (fold (emitTask G) ts (emitTask G t st)) = snd (emitTask G t st) @ map ISubagent new"
      "\<forall>g \<in> set new. \<exists>t \<in> set ts. G t = Some g"
    by blast
  from emitTask_cases [of G t st] show ?case
  proof
    assume "emitTask G t st = st"
    with new show ?thesis by auto
  next
    assume a: "G t \<noteq> None \<and> t \<notin> fst st
      \<and> emitTask G t st = (insert t (fst st), snd st @ [ISubagent (the (G t))])"
    then have "snd (fold (emitTask G) (t # ts) st) = snd st @ map ISubagent (the (G t) # new)"
      using new(1) by simp
    moreover have "\<forall>g \<in> set (the (G t) # new). \<exists>u \<in> set (t # ts). G u = Some g"
      using a new(2) by auto
    ultimately show ?thesis by blast
  qed
qed

lemma emitTask_all:
  assumes "emittedAll G st"
  shows "emittedAll G (emitTask G t st)"
proof (cases "G t \<noteq> None \<and> t \<notin> fst st")
  case False
  then have "emitTask G t st = st" by (auto simp: emitTask_def)
  with assms show ?thesis by simp
next
  case True
  then obtain g where g: "G t = Some g" by auto
  from True have eq: "emitTask G t st = (insert t (fst st), snd st @ [ISubagent g])"
    by (simp add: emitTask_def g)
  show ?thesis
    unfolding eq emittedAll_def
  proof
    fix u assume "u \<in> fst (insert t (fst st), snd st @ [ISubagent g])"
    then consider "u = t" | "u \<in> fst st" by auto
    then show "\<exists>h. G u = Some h \<and> ISubagent h \<in> set (snd (insert t (fst st), snd st @ [ISubagent g]))"
    proof cases
      case 1
      with g show ?thesis by simp
    next
      case 2
      with assms obtain h where "G u = Some h" "ISubagent h \<in> set (snd st)"
        unfolding emittedAll_def by blast
      then show ?thesis by auto
    qed
  qed
qed

lemma emitTask_added:
  "G t = Some g \<Longrightarrow> t \<in> fst (emitTask G t st)"
  by (simp add: emitTask_def)

lemma emitTask_mono: "fst st \<subseteq> fst (emitTask G t st)"
  by (auto simp: emitTask_def)

lemma fold_emitTask_all: "emittedAll G st \<Longrightarrow> emittedAll G (fold (emitTask G) ts st)"
  by (induction ts arbitrary: st) (simp_all add: emitTask_all)

lemma fold_emitTask_mono: "fst st \<subseteq> fst (fold (emitTask G) ts st)"
proof (induction ts arbitrary: st)
  case Nil
  show ?case by simp
next
  case (Cons t ts)
  from emitTask_mono [of st G t] Cons.IH [of "emitTask G t st"] show ?case by auto
qed

lemma fold_emitTask_added:
  "t \<in> set ts \<Longrightarrow> G t = Some g \<Longrightarrow> t \<in> fst (fold (emitTask G) ts st)"
proof (induction ts arbitrary: st)
  case Nil
  then show ?case by simp
next
  case (Cons u ts)
  show ?case
  proof (cases "t = u")
    case True
    with Cons.prems(2) have "t \<in> fst (emitTask G u st)" by (simp add: emitTask_added)
    with fold_emitTask_mono [of "emitTask G u st" G ts] show ?thesis by auto
  next
    case False
    with Cons show ?thesis by simp
  qed
qed

lemma buildStep_normals:
  "normalsOfI (snd (buildStep P T G (i, m) st))
     = normalsOfI (snd st) @ (if standaloneAt P T G i then [(m, i)] else [])"
  by (simp add: buildStep_def standaloneAt_def Let_def split: option.splits)

lemma emittedOK_append_normal:
  "emittedOK G (A, out) \<Longrightarrow> emittedOK G (A, out @ [INormal m i])"
  by (simp add: emittedOK_def)

lemma buildStep_inv:
  assumes "keyed G" and "emittedOK G st"
  shows "emittedOK G (buildStep P T G im st)"
proof -
  have a: "emittedOK G (fold (emitTask G) ts st)" for ts
    using assms by (rule fold_emitTask_inv)
  have b: "emittedOK G (fst s, snd s @ [INormal m i])" if "emittedOK G s" for s m i
    using that emittedOK_append_normal [of G "fst s" "snd s"] by simp
  show ?thesis
    using a b assms(2)
    by (simp add: buildStep_def Let_def split: option.splits)
qed

lemma buildStep_all:
  assumes "emittedAll G st"
  shows "emittedAll G (buildStep P T G im st)"
proof -
  have a: "emittedAll G (fold (emitTask G) ts st)" for ts
    using assms by (rule fold_emitTask_all)
  have b: "emittedAll G (fst s, snd s @ [INormal m i])" if "emittedAll G s" for s m i
    using that by (auto simp: emittedAll_def)
  show ?thesis
    using a b assms by (simp add: buildStep_def Let_def split: option.splits)
qed

lemma buildStep_out:
  "\<exists>new. snd (buildStep P T G (i, m) st) = snd st @ new
         \<and> (\<forall>e \<in> set new. e = INormal m i
               \<or> (\<exists>g ts t. e = ISubagent g \<and> T i = Some ts \<and> t \<in> set ts \<and> G t = Some g))"
proof (cases "i \<in> P")
  case True
  then show ?thesis by (simp add: buildStep_def)
next
  case False
  show ?thesis
  proof (cases "T i")
    case None
    with False show ?thesis by (simp add: buildStep_def)
  next
    case (Some ts)
    from fold_emitTask_out [of G ts st] obtain new where
      new: "snd (fold (emitTask G) ts st) = snd st @ map ISubagent new"
        "\<forall>g \<in> set new. \<exists>t \<in> set ts. G t = Some g"
      by blast
    have sub: "\<forall>e \<in> set (map ISubagent new).
        e = INormal m i \<or> (\<exists>g ts t. e = ISubagent g \<and> T i = Some ts \<and> t \<in> set ts \<and> G t = Some g)"
      using new(2) Some by auto
    show ?thesis
    proof (cases "ts = []")
      case True
      with False Some show ?thesis by (simp add: buildStep_def)
    next
      case nonempty: False
      show ?thesis
      proof (cases "list_ex (\<lambda>t. G t \<noteq> None) ts")
        case True
        with False Some nonempty have
          "snd (buildStep P T G (i, m) st) = snd st @ map ISubagent new"
          using new(1) by (simp add: buildStep_def Let_def)
        with sub show ?thesis by blast
      next
        case noGroup: False
        with False Some nonempty have
          "snd (buildStep P T G (i, m) st) = snd st @ (map ISubagent new @ [INormal m i])"
          using new(1) by (simp add: buildStep_def Let_def)
        moreover have "\<forall>e \<in> set (map ISubagent new @ [INormal m i]).
          e = INormal m i \<or> (\<exists>g ts t. e = ISubagent g \<and> T i = Some ts \<and> t \<in> set ts \<and> G t = Some g)"
          using sub by auto
        ultimately show ?thesis by blast
      qed
    qed
  qed
qed

lemma buildStep_emits:
  assumes "emittedAll G st" and "i \<notin> P" and "T i = Some ts" and "t \<in> set ts" and "G t = Some g"
  shows "ISubagent g \<in> set (snd (buildStep P T G (i, m) st))"
proof -
  have ne: "ts \<noteq> []" using assms(4) by auto
  have ex: "list_ex (\<lambda>t. G t \<noteq> None) ts" using assms(4,5) by (auto simp: list_ex_iff)
  have eq: "buildStep P T G (i, m) st = fold (emitTask G) ts st"
    using assms(2,3) ne ex by (simp add: buildStep_def Let_def)
  have "t \<in> fst (fold (emitTask G) ts st)" using assms(4,5) by (rule fold_emitTask_added)
  moreover have "emittedAll G (fold (emitTask G) ts st)" using assms(1) by (rule fold_emitTask_all)
  ultimately show ?thesis using assms(5) by (auto simp: eq emittedAll_def)
qed

lemma buildStep_keeps:
  "e \<in> set (snd st) \<Longrightarrow> e \<in> set (snd (buildStep P T G im st))"
proof -
  obtain i m where im: "im = (i, m)" by (cases im)
  assume "e \<in> set (snd st)"
  with buildStep_out [of P T G i m st] show ?thesis by (auto simp: im)
qed

lemma buildIntermediate_normals:
  "normalsOfI (snd (fold (buildStep P T G) ims st))
     = normalsOfI (snd st)
       @ map (\<lambda>im. (snd im, fst im)) (filter (\<lambda>im. standaloneAt P T G (fst im)) ims)"
proof (induction ims arbitrary: st)
  case Nil
  show ?case by simp
next
  case (Cons im ims)
  obtain i m where im: "im = (i, m)" by (cases im)
  show ?case
    by (simp add: Cons.IH im buildStep_normals)
qed

lemma buildIntermediate_inv:
  "keyed G \<Longrightarrow> emittedOK G st \<Longrightarrow> emittedOK G (fold (buildStep P T G) ims st)"
  by (induction ims arbitrary: st) (simp_all add: buildStep_inv)

lemma fold_buildStep_keeps:
  "e \<in> set (snd st) \<Longrightarrow> e \<in> set (snd (fold (buildStep P T G) ims st))"
  by (induction ims arbitrary: st) (simp_all add: buildStep_keeps)

lemma fold_buildStep_all:
  "emittedAll G st \<Longrightarrow> emittedAll G (fold (buildStep P T G) ims st)"
  by (induction ims arbitrary: st) (simp_all add: buildStep_all)

lemma buildIntermediate_emits:
  assumes "(i, m) \<in> set ims" and "i \<notin> P" and "T i = Some ts" and "t \<in> set ts" and "G t = Some g"
  shows "emittedAll G st \<Longrightarrow> ISubagent g \<in> set (snd (fold (buildStep P T G) ims st))"
  using assms(1)
proof (induction ims arbitrary: st)
  case Nil
  then show ?case by simp
next
  case (Cons im ims)
  show ?case
  proof (cases "im = (i, m)")
    case True
    from buildStep_emits
      [where G = G and st = st and P = P and T = T and i = i and ts = ts and t = t and g = g
         and m = m, OF Cons.prems(1) assms(2-5)]
    have "ISubagent g \<in> set (snd (buildStep P T G im st))" by (simp add: True)
    then show ?thesis by (simp add: fold_buildStep_keeps)
  next
    case False
    with Cons.prems(2) have "(i, m) \<in> set ims" by simp
    from Cons.IH [OF buildStep_all [OF Cons.prems(1)] this] show ?thesis by simp
  qed
qed



subsection \<open>The intermediate list of a transcript\<close>

lemma intermediate_emittedOK:
  "emittedOK (subagentGroups msgs)
     (buildIntermediate (processedIndices msgs) (indexToTaskIds (resolveTasks msgs))
        (subagentGroups msgs) (enumerate 0 msgs))"
  unfolding buildIntermediate_def
  by (rule buildIntermediate_inv [OF subagentGroups_keyed]) (simp add: emittedOK_def)

lemma intermediate_subagent_lookup:
  "g \<in> set (subagentsOfI (intermediateGroups msgs)) \<Longrightarrow> subagentGroups msgs (id_g g) = Some g"
  using intermediate_emittedOK [of msgs] by (simp add: emittedOK_def intermediateGroups_def)

lemma intermediate_subagent_distinct:
  "distinct (map id_g (subagentsOfI (intermediateGroups msgs)))"
  using intermediate_emittedOK [of msgs] by (simp add: emittedOK_def intermediateGroups_def)

lemma enumerate_upt: "enumerate 0 msgs = map (\<lambda>i. (i, msgs ! i)) [0 ..< length msgs]"
  by (rule nth_equalityI) (simp_all add: nth_enumerate_eq)

lemma standaloneAt_iff:
  "i < length msgs \<Longrightarrow>
     standaloneAt (processedIndices msgs) (indexToTaskIds (resolveTasks msgs)) (subagentGroups msgs) i
       \<longleftrightarrow> i \<notin> processedIndices msgs
           \<and> \<not> list_ex (\<lambda>t. subagentGroups msgs t \<noteq> None) (extractTaskToolUseIds (msgs ! i))"
  by (simp add: standaloneAt_def indexToTaskIds_resolveTasks)

lemma intermediate_normals:
  "normalsOfI (intermediateGroups msgs) = map (\<lambda>i. (msgs ! i, i)) (standaloneIndices msgs)"
proof -
  have "filter (\<lambda>i. standaloneAt (processedIndices msgs) (indexToTaskIds (resolveTasks msgs))
                      (subagentGroups msgs) i) [0 ..< length msgs]
      = standaloneIndices msgs"
    unfolding standaloneIndices_def
    by (rule filter_cong) (simp_all add: standaloneAt_iff)
  then show ?thesis
    by (simp add: intermediateGroups_def buildIntermediate_def buildIntermediate_normals
        enumerate_upt filter_map comp_def)
qed



lemma intermediate_emits:
  assumes "i < length msgs" and "i \<notin> processedIndices msgs"
    and "t \<in> set (extractTaskToolUseIds (msgs ! i))" and "subagentGroups msgs t = Some g"
  shows "ISubagent g \<in> set (intermediateGroups msgs)"
proof -
  have "(i, msgs ! i) \<in> set (enumerate 0 msgs)"
    using assms(1) by (simp add: in_set_enumerate_eq)
  moreover have "indexToTaskIds (resolveTasks msgs) i = Some (extractTaskToolUseIds (msgs ! i))"
    using assms(1,3) by (auto simp: indexToTaskIds_resolveTasks)
  moreover have "emittedAll (subagentGroups msgs) ({}, [])" by (simp add: emittedAll_def)
  ultimately show ?thesis
    unfolding intermediateGroups_def buildIntermediate_def
    using assms(2,3,4) by (intro buildIntermediate_emits [where i = i and m = "msgs ! i"]) 
qed

section \<open>The whole pipeline\<close>

lemma groupMessages_subagents:
  "subagentGroupsOf (groupMessages msgs) = subagentsOfI (intermediateGroups msgs)"
  by (simp add: groupMessages_def aggregate_aggregateFrom aggregateFrom_subagents)

lemma subagent_in_output:
  "Subagent g \<in> set (groupMessages msgs) \<longleftrightarrow> ISubagent g \<in> set (intermediateGroups msgs)"
proof -
  have "Subagent g \<in> set out \<longleftrightarrow> g \<in> set (subagentGroupsOf out)" for out
  proof (induction out)
    case Nil
    show ?case by simp
  next
    case (Cons x out)
    then show ?case by (cases x) auto
  qed
  then show ?thesis by (simp add: groupMessages_subagents in_subagentsOfI)
qed

text \<open>
  C1 does not hold of the code. In \<open>earlyChild\<close> the message at index 0 names the
  task \<open>t1\<close> as its parent and stands before the task message, which is at index 1.
  The group of \<open>t1\<close> is materialized by the message at index 2. The second pass marks
  index 0 as processed, since its parent id names a group, but the forward scan of the group
  starts behind the task message and collects index 2 only. The output is the one Subagent
  entry: the message at index 0 is in no entry, neither as a payload, nor as a member, nor
  as a task message.
\<close>

theorem early_child_dropped:
  "getParentToolUseId (earlyChild ! 0) = Some ''t1''
   \<and> groupMessages earlyChild = [Subagent earlyChildGroup]
   \<and> id_g earlyChildGroup = ''t1'' \<and> startIndex earlyChildGroup = 1
   \<and> memberIndices earlyChild earlyChildGroup = [2]
   \<and> 0 \<in> processedIndices earlyChild
   \<and> earlyChild ! 0 \<notin> set (flattenGroups (groupMessages earlyChild))
   \<and> \<not> appearsOnce earlyChild 0"
  by code_simp

text \<open>
  Elsewhere the passes cover the indices. An index that is not marked as processed is
  shown exactly once outside groups (as the payload of a Normal entry or, when it is
  technical, as a member of an Aggregated run) if none of its task ids has a group, and
  otherwise the output holds the Subagent entry of every group among its task ids; it is a
  member of no group. When every task id is carried by one message only, such a group has
  the index as its \<open>startIndex\<close>. A marked index that stands behind the task message of
  the group it names, that task message not being marked itself, is a member of that group
  in the output, of no other group, and is not shown outside groups.
\<close>

lemma unmarked_index_appears_once:
  assumes "i < length msgs" and "i \<notin> processedIndices msgs"
  shows "(if list_ex (\<lambda>t. subagentGroups msgs t \<noteq> None) (extractTaskToolUseIds (msgs ! i))
          then i \<notin> set (standaloneIndices msgs)
               \<and> (\<forall>t \<in> set (extractTaskToolUseIds (msgs ! i)).
                     \<forall>g. subagentGroups msgs t = Some g \<longrightarrow> Subagent g \<in> set (groupMessages msgs))
          else i \<in> set (standaloneIndices msgs))
       \<and> distinct (standaloneIndices msgs)
       \<and> standaloneMessages (groupMessages msgs) = map (nth msgs) (standaloneIndices msgs)
       \<and> (\<forall>g \<in> set (subagentGroupsOf (groupMessages msgs)). i \<notin> set (memberIndices msgs g))
       \<and> (\<forall>g \<in> set (subagentGroupsOf (groupMessages msgs)).
             \<forall>j \<in> set (memberIndices msgs g).
               j \<in> processedIndices msgs \<and> j \<notin> set (standaloneIndices msgs)
               \<and> (\<forall>g' \<in> set (subagentGroupsOf (groupMessages msgs)).
                      g' \<noteq> g \<longrightarrow> j \<notin> set (memberIndices msgs g')))"
proof (intro conjI)
  show "if list_ex (\<lambda>t. subagentGroups msgs t \<noteq> None) (extractTaskToolUseIds (msgs ! i))
          then i \<notin> set (standaloneIndices msgs)
               \<and> (\<forall>t \<in> set (extractTaskToolUseIds (msgs ! i)).
                     \<forall>g. subagentGroups msgs t = Some g \<longrightarrow> Subagent g \<in> set (groupMessages msgs))
          else i \<in> set (standaloneIndices msgs)"
    using assms intermediate_emits [OF assms]
    by (auto simp: standaloneIndices_def subagent_in_output)
  show "distinct (standaloneIndices msgs)"
    by (simp add: standaloneIndices_def)
  show "standaloneMessages (groupMessages msgs) = map (nth msgs) (standaloneIndices msgs)"
    by (simp add: groupMessages_def aggregate_aggregateFrom aggregateFrom_standalone
        intermediate_normals comp_def)
  have look: "subagentGroups msgs (id_g g) = Some g"
    if "g \<in> set (subagentGroupsOf (groupMessages msgs))" for g
    using that by (simp add: groupMessages_subagents intermediate_subagent_lookup)
  have marked: "j \<in> processedIndices msgs"
    if "g \<in> set (subagentGroupsOf (groupMessages msgs))" "j \<in> set (memberIndices msgs g)" for g j
    using look [OF that(1)] that(2)
    by (auto simp: processedIndices_eq memberIndices_def memberIndicesFrom_bounds)
  show "\<forall>g \<in> set (subagentGroupsOf (groupMessages msgs)). i \<notin> set (memberIndices msgs g)"
    using marked assms(2) by blast
  show "\<forall>g \<in> set (subagentGroupsOf (groupMessages msgs)).
          \<forall>j \<in> set (memberIndices msgs g).
            j \<in> processedIndices msgs \<and> j \<notin> set (standaloneIndices msgs)
            \<and> (\<forall>g' \<in> set (subagentGroupsOf (groupMessages msgs)).
                   g' \<noteq> g \<longrightarrow> j \<notin> set (memberIndices msgs g'))"
  proof (intro ballI conjI impI)
    fix g j
    assume g: "g \<in> set (subagentGroupsOf (groupMessages msgs))"
      and j: "j \<in> set (memberIndices msgs g)"
    show "j \<in> processedIndices msgs" using g j by (rule marked)
    then show "j \<notin> set (standaloneIndices msgs)" by (simp add: standaloneIndices_def)
    fix g'
    assume g': "g' \<in> set (subagentGroupsOf (groupMessages msgs))" and ne: "g' \<noteq> g"
    from look [OF g] look [OF g'] ne have "id_g g' \<noteq> id_g g" by auto
    with j show "j \<notin> set (memberIndices msgs g')"
      by (auto simp: memberIndices_def memberIndicesFrom_bounds)
  qed
qed

lemma unmarked_index_appears_once_example:
  "1 < length earlyChild \<and> 1 \<notin> processedIndices earlyChild
   \<and> 1 \<notin> set (standaloneIndices earlyChild)
   \<and> Subagent earlyChildGroup \<in> set (groupMessages earlyChild)
   \<and> 2 \<in> set (memberIndices earlyChild earlyChildGroup)
   \<and> 2 \<in> processedIndices earlyChild
   \<and> 2 \<notin> set (standaloneIndices earlyChild)"
proof -
  have a: "1 < length earlyChild" by (simp add: earlyChild_def)
  have b: "1 \<notin> processedIndices earlyChild" by code_simp
  have c: "list_ex (\<lambda>t. subagentGroups earlyChild t \<noteq> None)
             (extractTaskToolUseIds (earlyChild ! 1))" by code_simp
  have d: "''t1'' \<in> set (extractTaskToolUseIds (earlyChild ! 1))" by code_simp
  have e: "subagentGroups earlyChild ''t1'' = Some earlyChildGroup" by code_simp
  have f: "earlyChildGroup \<in> set (subagentGroupsOf (groupMessages earlyChild))" by code_simp
  have g: "2 \<in> set (memberIndices earlyChild earlyChildGroup)" by code_simp
  note inst = unmarked_index_appears_once [OF a b]
  from inst c d e have first:
    "1 \<notin> set (standaloneIndices earlyChild)
     \<and> Subagent earlyChildGroup \<in> set (groupMessages earlyChild)"
    by auto
  from inst f g have second:
    "2 \<in> processedIndices earlyChild \<and> 2 \<notin> set (standaloneIndices earlyChild)"
    by blast
  from a b g first second show ?thesis by simp
qed

lemma owner_under_unique:
  assumes "uniqueTaskOwners msgs" and "i < length msgs"
    and "t \<in> set (extractTaskToolUseIds (msgs ! i))" and "subagentGroups msgs t = Some g"
  shows "startIndex g = i \<and> taskMessage g = msgs ! i"
proof -
  from subagentGroups_sound [OF assms(4)] have j:
    "startIndex g < length msgs" "taskMessage g = msgs ! startIndex g"
    "t \<in> set (extractTaskToolUseIds (msgs ! startIndex g))"
    by simp_all
  have "i \<in> set [0 ..< length msgs]" "startIndex g \<in> set [0 ..< length msgs]"
    using assms(2) j(1) by simp_all
  then have "startIndex g = i"
    using assms(1,3) j(3) unfolding uniqueTaskOwners_def by blast
  with j(2) show ?thesis by simp
qed

lemma marked_child_is_shown:
  assumes "i < length msgs" and "getParentToolUseId (msgs ! i) = Some t"
    and "subagentGroups msgs t = Some g" and "startIndex g < i"
    and "startIndex g \<notin> processedIndices msgs"
  shows "g \<in> set (subagentGroupsOf (groupMessages msgs))
       \<and> i \<in> set (memberIndices msgs g)
       \<and> i \<notin> set (standaloneIndices msgs)
       \<and> (\<forall>g' \<in> set (subagentGroupsOf (groupMessages msgs)).
             g' \<noteq> g \<longrightarrow> i \<notin> set (memberIndices msgs g'))"
proof (intro conjI ballI impI)
  from subagentGroups_sound [OF assms(3)] have s:
    "id_g g = t" "startIndex g < length msgs"
    "t \<in> set (extractTaskToolUseIds (msgs ! startIndex g))"
    by simp_all
  from intermediate_emits [OF s(2) assms(5) s(3) assms(3)]
  show "g \<in> set (subagentGroupsOf (groupMessages msgs))"
    by (simp add: groupMessages_subagents in_subagentsOfI)
  show "i \<in> set (memberIndices msgs g)"
    using assms(1,2,4) s(1) by (simp add: memberIndices_def memberIndicesFrom_bounds)
  have "i \<in> processedIndices msgs"
    using assms(1,2,3) by (auto simp: processedIndices_eq)
  then show "i \<notin> set (standaloneIndices msgs)" by (simp add: standaloneIndices_def)
  fix g'
  assume g': "g' \<in> set (subagentGroupsOf (groupMessages msgs))" and ne: "g' \<noteq> g"
  from g' have "subagentGroups msgs (id_g g') = Some g'"
    by (simp add: groupMessages_subagents intermediate_subagent_lookup)
  with assms(3) ne have "id_g g' \<noteq> t" by auto
  with assms(2) show "i \<notin> set (memberIndices msgs g')"
    by (auto simp: memberIndices_def memberIndicesFrom_bounds)
qed








text \<open>
  C9. For every SubagentGroup of the output: \<open>startIndex\<close> is the index of the task
  message, which carries the id of the group; the subagent messages are the messages at the
  member indices, a strictly ascending list of indices behind the task message; there is at
  least one, and \<open>endIndex\<close> is the greatest member index. No two groups of the output
  have the same id, and the member indices of two different groups are disjoint.
\<close>

theorem subagent_group_invariants:
  "(\<forall>g \<in> set (subagentGroupsOf (groupMessages msgs)).
       startIndex g < length msgs \<and> taskMessage g = msgs ! startIndex g
     \<and> id_g g \<in> set (extractTaskToolUseIds (taskMessage g))
     \<and> subagentMessages g = map (nth msgs) (memberIndices msgs g)
     \<and> sorted_wrt (<) (memberIndices msgs g)
     \<and> (\<forall>i \<in> set (memberIndices msgs g). startIndex g < i \<and> i < length msgs)
     \<and> memberIndices msgs g \<noteq> []
     \<and> endIndex g = Max (set (memberIndices msgs g)))
   \<and> distinct (map id_g (subagentGroupsOf (groupMessages msgs)))
   \<and> (\<forall>g \<in> set (subagentGroupsOf (groupMessages msgs)).
        \<forall>g' \<in> set (subagentGroupsOf (groupMessages msgs)).
          g \<noteq> g' \<longrightarrow> set (memberIndices msgs g) \<inter> set (memberIndices msgs g') = {})"
proof (intro conjI ballI impI)
  fix g assume "g \<in> set (subagentGroupsOf (groupMessages msgs))"
  then have look: "subagentGroups msgs (id_g g) = Some g"
    by (simp add: groupMessages_subagents intermediate_subagent_lookup)
  note sound = subagentGroups_sound [OF look]
  show "startIndex g < length msgs" using sound by simp
  show "taskMessage g = msgs ! startIndex g" using sound by simp
  show "id_g g \<in> set (extractTaskToolUseIds (taskMessage g))" using sound by simp
  show "subagentMessages g = map (nth msgs) (memberIndices msgs g)" using sound by simp
  show "sorted_wrt (<) (memberIndices msgs g)"
    by (simp add: memberIndices_def memberIndicesFrom_sorted)
  show "memberIndices msgs g \<noteq> []" using sound by simp
  show "endIndex g = Max (set (memberIndices msgs g))" using sound by simp
  fix i assume "i \<in> set (memberIndices msgs g)"
  then show "startIndex g < i" "i < length msgs"
    by (auto simp: memberIndices_def memberIndicesFrom_bounds)
next
  show "distinct (map id_g (subagentGroupsOf (groupMessages msgs)))"
    by (simp add: groupMessages_subagents intermediate_subagent_distinct)
next
  fix g g'
  assume g: "g \<in> set (subagentGroupsOf (groupMessages msgs))"
    and g': "g' \<in> set (subagentGroupsOf (groupMessages msgs))" and ne: "g \<noteq> g'"
  from g have "subagentGroups msgs (id_g g) = Some g"
    by (simp add: groupMessages_subagents intermediate_subagent_lookup)
  moreover from g' have "subagentGroups msgs (id_g g') = Some g'"
    by (simp add: groupMessages_subagents intermediate_subagent_lookup)
  ultimately have "id_g g \<noteq> id_g g'" using ne by auto
  then show "set (memberIndices msgs g) \<inter> set (memberIndices msgs g') = {}"
    by (auto simp: memberIndices_def memberIndicesFrom_bounds)
qed

theorem subagent_group_invariants_witness:
  "interleavedGroup1 \<in> set (subagentGroupsOf (groupMessages interleavedTasks))
   \<and> interleavedGroup2 \<in> set (subagentGroupsOf (groupMessages interleavedTasks))
   \<and> interleavedGroup1 \<noteq> interleavedGroup2
   \<and> subagentMessages interleavedGroup1
       = map (nth interleavedTasks) (memberIndices interleavedTasks interleavedGroup1)
   \<and> endIndex interleavedGroup1 = Max (set (memberIndices interleavedTasks interleavedGroup1))
   \<and> set (memberIndices interleavedTasks interleavedGroup1)
       \<inter> set (memberIndices interleavedTasks interleavedGroup2) = {}"
proof -
  have a: "interleavedGroup1 \<in> set (subagentGroupsOf (groupMessages interleavedTasks))"
    by code_simp
  have b: "interleavedGroup2 \<in> set (subagentGroupsOf (groupMessages interleavedTasks))"
    by code_simp
  have c: "interleavedGroup1 \<noteq> interleavedGroup2"
    by (simp add: interleavedGroup1_def interleavedGroup2_def)
  from subagent_group_invariants [of interleavedTasks] a b c show ?thesis by blast
qed

text \<open>
  C10. Two runs of \<open>groupMessages\<close> over the same input give lists of the same
  length whose entries, position by position, have the same type and compare equal under
  \<open>isMessageGroupEqual\<close>; the comparison of the fields alone, which is what runs when
  the two entries are different objects, returns true as well.
\<close>

theorem groupMessages_rerun_equal:
  "length (groupMessages msgs) = length (groupMessages msgs)
   \<and> list_all2 (\<lambda>prev next. groupType prev = groupType next
                   \<and> groupFieldsEqual prev next
                   \<and> isMessageGroupEqual (Some prev) (Some next))
       (groupMessages msgs) (groupMessages msgs)"
  by (simp add: list_all2_same groupFieldsEqual_refl isMessageGroupEqual_def)

end
